theory Spec2Isabelle
  imports Main "HOL-Library.AList"
begin

section \<open>Text and numbers as Python has them\<close>

text \<open>
  A Python \<open>str\<close> is modelled as a \<open>string\<close>, one \<open>char\<close> per code point; the model
  covers the code points below 256. Python's \<open>int\<close> is \<open>int\<close>.
\<close>

definition newline :: char where
  "newline = CHR 0x0A"

definition is_digit :: "char \<Rightarrow> bool" where
  \<comment> \<open>the class \<open>[0-9]\<close>\<close>
  "is_digit c = (c \<in> set ''0123456789'')"

definition is_space :: "char \<Rightarrow> bool" where
  \<comment> \<open>the class \<open>\s\<close> of \<open>re\<close> on a \<open>str\<close> pattern: tab to carriage return, the four
      separators 0x1C to 0x1F, space, NEL and the no-break space\<close>
  "is_space c = ((of_char c :: nat) \<in> {9, 10, 11, 12, 13, 28, 29, 30, 31, 32, 133, 160})"

definition digit_char :: "nat \<Rightarrow> char" where
  "digit_char n = ''0123456789'' ! n"

fun str_nat :: "nat \<Rightarrow> string" where
  "str_nat n = (if n < 10 then [digit_char n] else str_nat (n div 10) @ [digit_char (n mod 10)])"

declare str_nat.simps [simp del]

definition str_int :: "int \<Rightarrow> string" where
  \<comment> \<open>\<open>str(i)\<close>, also what an f-string writes for an int\<close>
  "str_int i = (if i < 0 then CHR ''-'' # str_nat (nat (- i)) else str_nat (nat i))"

definition digit_val :: "char \<Rightarrow> int" where
  "digit_val c = int (of_char c) - 48"

definition py_int :: "string \<Rightarrow> int" where
  \<comment> \<open>\<open>int(s)\<close> on a string of decimal digits, the only strings the pattern below hands it\<close>
  "py_int s = foldl (\<lambda>a c. 10 * a + digit_val c) 0 s"

definition re_sub_space :: "string \<Rightarrow> string" where
  \<comment> \<open>\<open>re.sub(r"\s", "_", reason)\<close>\<close>
  "re_sub_space reason = map (\<lambda>c. if is_space c then CHR ''_'' else c) reason"

definition replace_underscore :: "string \<Rightarrow> string" where
  \<comment> \<open>\<open>description.replace("_", " ")\<close>\<close>
  "replace_underscore s = map (\<lambda>c. if c = CHR ''_'' then CHR '' '' else c) s"

definition zero_pad3 :: "string \<Rightarrow> string" where
  \<comment> \<open>the format specification \<open>>03\<close>: right aligned in width 3, filled with zeros\<close>
  "zero_pad3 s = replicate (3 - length s) CHR ''0'' @ s"

definition to_upper :: "char \<Rightarrow> char" where
  "to_upper c =
     (case map_of (zip ''abcdefghijklmnopqrstuvwxyz'' ''ABCDEFGHIJKLMNOPQRSTUVWXYZ'') c of
        None \<Rightarrow> c
      | Some u \<Rightarrow> u)"

definition is_dml :: "string \<Rightarrow> bool" where
  \<comment> \<open>the first word of the statement, after blanks and in any case, is INSERT, UPDATE,
      DELETE or REPLACE\<close>
  "is_dml sql =
     (let s = dropWhile (\<lambda>c. c \<in> set [CHR '' '', CHR 0x09, CHR 0x0A, CHR 0x0D]) sql
      in map to_upper (take 6 s) \<in> set [''INSERT'', ''UPDATE'', ''DELETE''] \<or>
         map to_upper (take 7 s) = ''REPLACE'')"

definition hex_char :: "nat \<Rightarrow> char" where
  "hex_char n = ''0123456789abcdef'' ! n"

definition json_escape :: "char \<Rightarrow> string" where
  \<comment> \<open>one character of a JSON string, as \<open>json.dump\<close> writes it with \<open>ensure_ascii\<close>\<close>
  "json_escape c =
     (if c = CHR 0x22 then [CHR 0x5C, CHR 0x22]
      else if c = CHR 0x5C then [CHR 0x5C, CHR 0x5C]
      else if c = CHR 0x0A then [CHR 0x5C, CHR ''n'']
      else if c = CHR 0x0D then [CHR 0x5C, CHR ''r'']
      else if c = CHR 0x09 then [CHR 0x5C, CHR ''t'']
      else if c = CHR 0x08 then [CHR 0x5C, CHR ''b'']
      else if c = CHR 0x0C then [CHR 0x5C, CHR ''f'']
      else if 32 \<le> (of_char c :: nat) \<and> (of_char c :: nat) \<le> 126 then [c]
      else CHR 0x5C # ''u00'' @ [hex_char (of_char c div 16), hex_char (of_char c mod 16)])"

definition json_str :: "string \<Rightarrow> string" where
  "json_str s = CHR 0x22 # concat (map json_escape s) @ [CHR 0x22]"

section \<open>Data model\<close>

type_synonym path = string

text \<open>The \<open>Revisions\<close> typed dictionary: the content of the state file.\<close>

record Revisions =
  version :: int
  database_uri :: string

record Revision =
  kind :: string
  version :: int
  description :: string
  "file" :: path

text \<open>
  A \<open>Migrations\<close> object. The dictionary \<open>revisions\<close> keeps its keys in insertion order,
  as a Python \<open>dict\<close> does, so it is an association list.
\<close>

record Migrations =
  filename :: path
  migrations_path :: path
  root :: path
  revisions :: "(int \<times> Revision) list"
  version :: int
  database_uri :: string

section \<open>The world outside the engine\<close>

text \<open>
  The calls that reach outside the process are recorded, in order, in a trace. The file system
  maps a path to the text stored there.

  The database is seen through the connection the program opens: \<open>sqlite.connect\<close> with
  the default isolation level. On such a connection the module opens a transaction by itself
  before an INSERT, UPDATE, DELETE or REPLACE statement, and before no other statement. A
  script executed while no transaction is open is durable as soon as it has run; a script
  executed while a transaction is open is pending: a commit makes it durable, a rollback
  discards it. Commit and rollback close the transaction.
\<close>

datatype event =
    FsRead path
  | FsWrite path string
  | FsReplace path path
  | DbExecute string
  | DbCommit
  | DbRollback
  | Echo string

datatype error =
    FileNotFoundError path
  | OSError path
  | DatabaseError string

record world =
  files :: "path \<rightharpoonup> string"
  db_committed :: "string list"
  db_pending :: "string list"
  db_in_transaction :: bool
  trace :: "event list"

text \<open>
  What the environment decides in one call: whether the database accepts a script (given the
  scripts it has executed so far), which scripts the module takes for an INSERT, UPDATE,
  DELETE or REPLACE statement (it looks at the first word; what it skips before that word
  differs between versions of the module, so the classification is a parameter), the value of
  \<open>uuid.uuid4()\<close>, the clock, and whether the file operations succeed. A write that fails
  after the file was opened leaves the first \<open>k\<close> characters in it.
\<close>

datatype write_outcome = WriteOk | OpenFails | WriteFails nat

record env =
  db_accepts :: "string list \<Rightarrow> string \<Rightarrow> bool"
  db_dml :: "string \<Rightarrow> bool"
  uuid4 :: string
  utcnow :: string
  stub_write :: write_outcome
  temp_write :: write_outcome
  replace_ok :: bool

definition path_join :: "path \<Rightarrow> path \<Rightarrow> path" where
  \<comment> \<open>the operator \<open>/\<close> of \<open>pathlib\<close> for a relative right operand, which is what the
      engine joins (\<open>migrations\<close>, a file name that starts with the kind); the result is
      kept as written, where \<open>pathlib\<close> would also drop a doubled separator\<close>
  "path_join a b = a @ ''/'' @ b"

definition read_text :: "path \<Rightarrow> world \<Rightarrow> (error + string) \<times> world" where
  "read_text p w =
     (let w' = w\<lparr>trace := trace w @ [FsRead p]\<rparr>
      in case files w p of
           None \<Rightarrow> (Inl (FileNotFoundError p), w')
         | Some s \<Rightarrow> (Inr s, w'))"

definition write_file :: "write_outcome \<Rightarrow> path \<Rightarrow> string \<Rightarrow> world \<Rightarrow> (error + unit) \<times> world" where
  \<comment> \<open>\<open>with open(p, "w") as fp: fp.write(s)\<close>\<close>
  "write_file outcome p s w =
     (case outcome of
        OpenFails \<Rightarrow> (Inl (OSError p), w)
      | WriteFails k \<Rightarrow>
          (Inl (OSError p),
           w\<lparr>files := (files w)(p \<mapsto> take k s), trace := trace w @ [FsWrite p (take k s)]\<rparr>)
      | WriteOk \<Rightarrow>
          (Inr (), w\<lparr>files := (files w)(p \<mapsto> s), trace := trace w @ [FsWrite p s]\<rparr>))"

definition os_replace :: "bool \<Rightarrow> path \<Rightarrow> path \<Rightarrow> world \<Rightarrow> (error + unit) \<times> world" where
  "os_replace ok src dst w =
     (if \<not> ok then (Inl (OSError dst), w)
      else case files w src of
             None \<Rightarrow> (Inl (FileNotFoundError src), w)
           | Some s \<Rightarrow>
               (Inr (),
                w\<lparr>files := (if src = dst then files w else ((files w)(dst \<mapsto> s))(src := None)),
                  trace := trace w @ [FsReplace src dst]\<rparr>))"

definition db_execute :: "env \<Rightarrow> string \<Rightarrow> world \<Rightarrow> (error + unit) \<times> world" where
  \<comment> \<open>\<open>connection.execute(sql)\<close>: the transaction, if the statement opens one, is open
      before the statement runs, and stays open when the statement fails\<close>
  "db_execute e sql w =
     (let opened = (db_in_transaction w \<or> db_dml e sql);
          w' = w\<lparr>db_in_transaction := opened, trace := trace w @ [DbExecute sql]\<rparr>
      in if db_accepts e (db_committed w @ db_pending w) sql
         then (Inr (),
               if opened then w'\<lparr>db_pending := db_pending w @ [sql]\<rparr>
               else w'\<lparr>db_committed := db_committed w @ [sql]\<rparr>)
         else (Inl (DatabaseError sql), w'))"

definition db_commit :: "world \<Rightarrow> world" where
  "db_commit w =
     w\<lparr>db_committed := db_committed w @ db_pending w, db_pending := [],
       db_in_transaction := False, trace := trace w @ [DbCommit]\<rparr>"

definition db_rollback :: "world \<Rightarrow> world" where
  "db_rollback w =
     w\<lparr>db_pending := [], db_in_transaction := False, trace := trace w @ [DbRollback]\<rparr>"

definition echo :: "string \<Rightarrow> world \<Rightarrow> world" where
  "echo s w = w\<lparr>trace := trace w @ [Echo s]\<rparr>"

section \<open>The pattern of a revision file\<close>

text \<open>
  \<open>REVISION_FILE\<close> is \<open>(?P<kind>V)(?P<version>[0-9]+)__(?P<description>.+).sql\<close>, used with
  \<open>match\<close>: anchored at the start of the name only. The matcher is the backtracking one of
  \<open>re\<close>, in continuation style: a greedy \<open>+\<close> takes the longest run first and gives
  characters back one at a time until the rest of the pattern matches. The dot before \<open>sql\<close>
  is not escaped in the source, so it is the wildcard here too.
\<close>

definition lit :: "string \<Rightarrow> (string \<Rightarrow> 'a option) \<Rightarrow> string \<Rightarrow> 'a option" where
  "lit p k s = (if take (length p) s = p then k (drop (length p) s) else None)"

definition dot :: "(string \<Rightarrow> 'a option) \<Rightarrow> string \<Rightarrow> 'a option" where
  "dot k s = (case s of [] \<Rightarrow> None | c # r \<Rightarrow> if c = newline then None else k r)"

fun backoff :: "nat \<Rightarrow> (string \<Rightarrow> 'a option) \<Rightarrow> string \<Rightarrow> (string \<times> 'a) option" where
  "backoff 0 k s = None"
| "backoff (Suc n) k s =
     (case k (drop (Suc n) s) of
        Some a \<Rightarrow> Some (take (Suc n) s, a)
      | None \<Rightarrow> backoff n k s)"

definition plus_greedy :: "(char \<Rightarrow> bool) \<Rightarrow> (string \<Rightarrow> 'a option) \<Rightarrow> string \<Rightarrow> (string \<times> 'a) option" where
  "plus_greedy P k s = backoff (length (takeWhile P s)) k s"

text \<open>The groups of a match: kind, version, description.\<close>

type_synonym re_match = "string \<times> string \<times> string"

definition REVISION_FILE :: "string \<Rightarrow> re_match option" where
  "REVISION_FILE name =
     lit ''V'' (\<lambda>s1.
       case plus_greedy is_digit (\<lambda>s2.
              lit ''__'' (\<lambda>s3.
                plus_greedy (\<lambda>c. c \<noteq> newline) (\<lambda>s4.
                  dot (lit ''sql'' (\<lambda>s5. Some ())) s4) s3) s2) s1 of
         None \<Rightarrow> None
       | Some (ver, desc, u) \<Rightarrow> Some (''V'', ver, desc)) name"

definition from_match :: "re_match \<Rightarrow> path \<Rightarrow> Revision" where
  "from_match m f =
     (case m of (k, ver, desc) \<Rightarrow>
        \<lparr>kind = k, version = py_int ver, description = desc, file = f\<rparr>)"

section \<open>The engine\<close>

definition glob_sql :: "string list \<Rightarrow> string list" where
  \<comment> \<open>the entries of the migrations directory that \<open>*.sql\<close> selects\<close>
  "glob_sql names = filter (\<lambda>n. drop (length n - 4) n = ''.sql'') names"

definition get_revisions :: "path \<Rightarrow> string list \<Rightarrow> (int \<times> Revision) list" where
  \<comment> \<open>\<open>names\<close>: the entries of \<open>root/migrations\<close>, in the order the scan visits them\<close>
  "get_revisions rt names =
     foldl (\<lambda>result name.
              case REVISION_FILE name of
                None \<Rightarrow> result
              | Some m \<Rightarrow>
                  (let rev = from_match m (path_join (path_join rt ''migrations'') name)
                   in AList.update (Revision.version rev) rev result))
           [] (glob_sql names)"

definition dump :: "Migrations \<Rightarrow> Revisions" where
  "dump m =
     \<lparr>Revisions.version = Migrations.version m,
      Revisions.database_uri = Migrations.database_uri m\<rparr>"

definition json_dumps :: "Revisions \<Rightarrow> string" where
  \<open>json_dumps d =
     ''{"version": '' @ str_int (Revisions.version d) @
     '', "database_uri": '' @ json_str (Revisions.database_uri d) @ ''}''\<close>

definition temp_name :: "env \<Rightarrow> Migrations \<Rightarrow> path" where
  "temp_name e m = filename m @ ''.'' @ uuid4 e @ ''.tmp''"

definition save :: "env \<Rightarrow> Migrations \<Rightarrow> world \<Rightarrow> (error + unit) \<times> world" where
  "save e m w =
     (let temp = temp_name e m
      in case write_file (temp_write e) temp (json_dumps (dump m)) w of
           (Inl err, w1) \<Rightarrow> (Inl err, w1)
         | (Inr u, w1) \<Rightarrow> os_replace (replace_ok e) temp (filename m) w1)"

definition is_next_revision_taken :: "Migrations \<Rightarrow> bool" where
  "is_next_revision_taken m =
     (Migrations.version m + 1 \<in> set (map fst (revisions m)))"

definition ordered_revisions :: "Migrations \<Rightarrow> Revision list" where
  "ordered_revisions m = sort_key Revision.version (map snd (revisions m))"

definition stub_text :: "env \<Rightarrow> Migrations \<Rightarrow> string \<Rightarrow> string" where
  "stub_text e m reason =
     ''-- Revises: V'' @ str_int (Migrations.version m) @ [newline] @
     ''-- Creation Date: '' @ utcnow e @ '' UTC'' @ [newline] @
     ''-- Reason: '' @ reason @ [newline, newline]"

definition create_revision ::
  "env \<Rightarrow> Migrations \<Rightarrow> string \<Rightarrow> string \<Rightarrow> world \<Rightarrow> (error + Revision) \<times> world" where
  "create_revision e m reason knd w =
     (let cleaned = re_sub_space reason;
          migrations_folder = path_join (root m) (migrations_path m);
          fname = knd @ str_int (Migrations.version m + 1) @ ''__'' @ cleaned @ ''.sql'';
          pth = path_join migrations_folder fname;
          stub = stub_text e m reason
      in case write_file (stub_write e) pth stub w of
           (Inl err, w1) \<Rightarrow> (Inl err, w1)
         | (Inr u, w1) \<Rightarrow>
             (case save e m w1 of
                (Inl err, w2) \<Rightarrow> (Inl err, w2)
              | (Inr u', w2) \<Rightarrow>
                  (Inr \<lparr>kind = knd, version = Migrations.version m + 1,
                        description = reason, file = pth\<rparr>, w2)))"

text \<open>
  The loop of \<open>upgrade\<close>: \<open>v\<close> is \<open>self.version\<close>, which the loop does not change, and
  \<open>successes\<close> is the counter.
\<close>

fun apply_revisions ::
  "env \<Rightarrow> int \<Rightarrow> Revision list \<Rightarrow> int \<Rightarrow> world \<Rightarrow> (error + int) \<times> world" where
  "apply_revisions e v [] successes w = (Inr successes, w)"
| "apply_revisions e v (revision # rest) successes w =
     (if Revision.version revision > v
      then (case read_text (file revision) w of
              (Inl err, w1) \<Rightarrow> (Inl err, w1)
            | (Inr sql, w1) \<Rightarrow>
                (case db_execute e sql w1 of
                   (Inl err, w2) \<Rightarrow> (Inl err, w2)
                 | (Inr u, w2) \<Rightarrow> apply_revisions e v rest (successes + 1) w2))
      else apply_revisions e v rest successes w)"

definition upgrade_body :: "env \<Rightarrow> Migrations \<Rightarrow> world \<Rightarrow> (error + int) \<times> Migrations \<times> world" where
  \<comment> \<open>the block under \<open>with connection:\<close>\<close>
  "upgrade_body e m w =
     (case apply_revisions e (Migrations.version m) (ordered_revisions m) 0 w of
        (Inl err, w1) \<Rightarrow> (Inl err, m, w1)
      | (Inr successes, w1) \<Rightarrow>
          (let m' = m\<lparr>Migrations.version := Migrations.version m + successes\<rparr>
           in case save e m' w1 of
                (Inl err, w2) \<Rightarrow> (Inl err, m', w2)
              | (Inr u, w2) \<Rightarrow> (Inr successes, m', db_commit w2)))"

definition upgrade :: "env \<Rightarrow> Migrations \<Rightarrow> world \<Rightarrow> (error + int) \<times> Migrations \<times> world" where
  \<comment> \<open>leaving \<open>with connection:\<close> commits, or rolls back when an exception passes through\<close>
  "upgrade e m w =
     (case upgrade_body e m w of
        (Inl err, m', w') \<Rightarrow> (Inl err, m', db_rollback w')
      | (Inr n, m', w') \<Rightarrow> (Inr n, m', db_commit w'))"

section \<open>The commands \<open>migrate\<close> and \<open>log\<close>\<close>

text \<open>
  Both commands start with \<open>migrations = Migrations()\<close>; here the object built there is the
  argument \<open>m\<close>.
\<close>

definition style_bold :: "string \<Rightarrow> string" where
  \<comment> \<open>\<open>click.style(s, bold=True)\<close>, which \<open>click.secho\<close> applies before it echoes\<close>
  "style_bold s = CHR 0x1B # ''[1m'' @ s @ CHR 0x1B # ''[0m''"

definition migrate :: "env \<Rightarrow> Migrations \<Rightarrow> string \<Rightarrow> world \<Rightarrow> (error + unit) \<times> world" where
  "migrate e m reason w =
     (if is_next_revision_taken m
      then (Inr (),
            echo (style_bold ''hint: apply pending migrations with the `upgrade` command'')
              (echo ''an unapplied migration already exists for the next version, exiting'' w))
      else case create_revision e m reason ''V'' w of
             (Inl err, w1) \<Rightarrow> (Inl err, w1)
           | (Inr revision, w1) \<Rightarrow>
               (Inr (), echo (''Created revision V'' @ str_int (Revision.version revision)) w1))"

definition log_revs :: "bool \<Rightarrow> Migrations \<Rightarrow> Revision list" where
  \<comment> \<open>the sequence \<open>revs\<close> that \<open>log\<close> iterates over\<close>
  "log_revs reverse m =
     (if \<not> reverse then rev (ordered_revisions m) else ordered_revisions m)"

definition style_yellow :: "string \<Rightarrow> string" where
  \<comment> \<open>\<open>click.style(s, fg="yellow")\<close>\<close>
  "style_yellow s = CHR 0x1B # ''[33m'' @ s @ CHR 0x1B # ''[0m''"

definition log_line :: "Revision \<Rightarrow> string" where
  "log_line r =
     style_yellow (''V'' @ zero_pad3 (str_int (Revision.version r))) @ '' '' @
     replace_underscore (description r)"

definition log :: "bool \<Rightarrow> Migrations \<Rightarrow> world \<Rightarrow> world" where
  "log reverse m w = foldl (\<lambda>w' r. echo (log_line r) w') w (log_revs reverse m)"

section \<open>Notions used to state the properties\<close>

text \<open>
  The events that change the file system and those that execute a script, the revisions an
  upgrade has to apply (those the loop of \<open>upgrade\<close> selects), the script a revision's
  file holds, the events the loop leaves in the trace for a list of revisions, and the
  invariant of the catalog: a dictionary has each key once, and \<open>get_revisions\<close> stores a
  revision under its own version.
\<close>

fun is_fs_write :: "event \<Rightarrow> bool" where
  "is_fs_write (FsWrite p s) = True"
| "is_fs_write (FsReplace p q) = True"
| "is_fs_write ev = False"

definition pending_revisions :: "Migrations \<Rightarrow> Revision list" where
  "pending_revisions m =
     filter (\<lambda>r. Revision.version r > Migrations.version m) (ordered_revisions m)"

definition script_of :: "world \<Rightarrow> Revision \<Rightarrow> string" where
  "script_of w r = (case files w (file r) of None \<Rightarrow> [] | Some s \<Rightarrow> s)"

definition run_events :: "world \<Rightarrow> Revision list \<Rightarrow> event list" where
  "run_events w rs = concat (map (\<lambda>r. [FsRead (file r), DbExecute (script_of w r)]) rs)"


definition catalog_ok :: "(int \<times> Revision) list \<Rightarrow> bool" where
  "catalog_ok revs =
     (distinct (map fst revs) \<and> list_all (\<lambda>(k, r). Revision.version r = k) revs)"

fun is_db_execute :: "event \<Rightarrow> bool" where
  "is_db_execute (DbExecute sql) = True"
| "is_db_execute ev = False"

section \<open>Example engines\<close>

text \<open>Concrete engines, environments and a file system on which the properties are evaluated.\<close>

definition rev1 :: Revision where
  "rev1 = \<lparr>kind = ''V'', version = 1, description = ''create_users'',
            file = ''app/migrations/V1__create_users.sql''\<rparr>"

definition rev2 :: Revision where
  "rev2 = \<lparr>kind = ''V'', version = 2, description = ''add_email'',
            file = ''app/migrations/V2__add_email.sql''\<rparr>"

definition rev3 :: Revision where
  "rev3 = \<lparr>kind = ''V'', version = 3, description = ''add_index'',
            file = ''app/migrations/V3__add_index.sql''\<rparr>"

definition engine :: "(int \<times> Revision) list \<Rightarrow> int \<Rightarrow> Migrations" where
  "engine revs v =
     \<lparr>filename = ''migrations/revisions.json'', migrations_path = ''migrations'',
      root = ''app'', revisions = revs, version = v, database_uri = ''db.sqlite''\<rparr>"

definition engine_123 :: Migrations where
  "engine_123 = engine [(2, rev2), (1, rev1), (3, rev3)] 0"

definition engine_13 :: Migrations where
  "engine_13 = engine [(3, rev3), (1, rev1)] 0"

definition disk :: world where
  "disk =
     \<lparr>files = [''app/migrations/V1__create_users.sql'' \<mapsto> ''CREATE TABLE users (id)'',
               ''app/migrations/V2__add_email.sql'' \<mapsto> ''ALTER TABLE users ADD email'',
               ''app/migrations/V3__add_index.sql'' \<mapsto> ''CREATE INDEX i ON users (id)''],
      db_committed = [], db_pending = [], db_in_transaction = False, trace = []\<rparr>"

definition env_ok :: env where
  "env_ok =
     \<lparr>db_accepts = (\<lambda>h sql. True), db_dml = is_dml, uuid4 = ''0f8b'',
      utcnow = ''2024-01-01 00:00:00'',
      stub_write = WriteOk, temp_write = WriteOk, replace_ok = True\<rparr>"



definition engine_1 :: Migrations where
  "engine_1 = engine [(1, rev1)] 0"

definition env_disk_full :: env where
  "env_disk_full = env_ok\<lparr>temp_write := WriteFails 9\<rparr>"

section \<open>The loop of \<open>upgrade\<close>\<close>

lemma script_of_cong: "files w1 = files w \<Longrightarrow> script_of w1 = script_of w"
  by (rule ext) (simp add: script_of_def)

lemma run_events_cong: "files w1 = files w \<Longrightarrow> run_events w1 = run_events w"
  using script_of_cong[of w1 w] by (auto simp: run_events_def fun_eq_iff)

lemma read_text_fields:
  "read_text p w = (r, w') \<Longrightarrow>
     w' = w\<lparr>trace := trace w @ [FsRead p]\<rparr> \<and>
     (case files w p of None \<Rightarrow> r = Inl (FileNotFoundError p) | Some s \<Rightarrow> r = Inr s)"
  by (auto simp: read_text_def Let_def split: option.splits)

lemma db_execute_fields:
  "db_execute e sql w = (r, w') \<Longrightarrow>
     files w' = files w \<and> trace w' = trace w @ [DbExecute sql] \<and>
     (r = Inr () \<or> r = Inl (DatabaseError sql))"
  by (auto simp: db_execute_def Let_def split: if_splits)

lemma db_execute_accepted:
  "db_accepts e (db_committed w @ db_pending w) sql \<Longrightarrow> \<exists>w'. db_execute e sql w = (Inr (), w')"
  by (simp add: db_execute_def Let_def)


lemma apply_revisions_step:
  "v < Revision.version r \<Longrightarrow>
   apply_revisions e v (r # rs) s w =
     (case files w (file r) of
        None \<Rightarrow> (Inl (FileNotFoundError (file r)), w\<lparr>trace := trace w @ [FsRead (file r)]\<rparr>)
      | Some sql \<Rightarrow>
          (case db_execute e sql (w\<lparr>trace := trace w @ [FsRead (file r)]\<rparr>) of
             (Inl err, w2) \<Rightarrow> (Inl err, w2)
           | (Inr u, w2) \<Rightarrow> apply_revisions e v rs (s + 1) w2))"
  by (simp add: read_text_def Let_def split: option.splits)


lemma apply_revisions_Inr:
  "apply_revisions e v rs s w = (Inr n, w') \<Longrightarrow>
     n = s + int (length (filter (\<lambda>r. v < Revision.version r) rs)) \<and>
     files w' = files w \<and>
     trace w' = trace w @ run_events w (filter (\<lambda>r. v < Revision.version r) rs)"
proof (induction rs arbitrary: s w)
  case Nil
  then show ?case by (simp add: run_events_def)
next
  case (Cons x rs)
  show ?case
  proof (cases "v < Revision.version x")
    case False
    with Cons show ?thesis by simp
  next
    case True
    let ?w1 = "w\<lparr>trace := trace w @ [FsRead (file x)]\<rparr>"
    from Cons.prems True obtain sql where f: "files w (file x) = Some sql"
      by (cases "files w (file x)") (auto simp: apply_revisions_step simp del: apply_revisions.simps)
    obtain r2 w2 where x: "db_execute e sql ?w1 = (r2, w2)" by (cases "db_execute e sql ?w1")
    from Cons.prems True f x have rec: "apply_revisions e v rs (s + 1) w2 = (Inr n, w')"
      by (cases r2) (simp_all add: apply_revisions_step del: apply_revisions.simps)
    from db_execute_fields[OF x] have w2: "files w2 = files w"
      "trace w2 = trace w @ [FsRead (file x), DbExecute sql]" by simp_all
    have re: "run_events w2 = run_events w" by (rule run_events_cong) (rule w2(1))
    have so: "script_of w x = sql" using f by (simp add: script_of_def)
    from Cons.IH[OF rec] True show ?thesis
      unfolding re w2 by (simp add: run_events_def so)
  qed
qed


lemma apply_revisions_succeeds:
  "\<forall>r\<in>set rs. v < Revision.version r \<longrightarrow>
      files w (file r) \<noteq> None \<and> (\<forall>h. db_accepts e h (script_of w r)) \<Longrightarrow>
   \<exists>w'. apply_revisions e v rs s w =
     (Inr (s + int (length (filter (\<lambda>r. v < Revision.version r) rs))), w')"
proof (induction rs arbitrary: s w)
  case Nil
  then show ?case by simp
next
  case (Cons x rs)
  show ?case
  proof (cases "v < Revision.version x")
    case False
    with Cons show ?thesis by simp
  next
    case True
    with Cons.prems obtain sql where f: "files w (file x) = Some sql"
      and acc: "\<And>h. db_accepts e h sql"
      by (auto simp: script_of_def)
    let ?w1 = "w\<lparr>trace := trace w @ [FsRead (file x)]\<rparr>"
    from db_execute_accepted[of e ?w1 sql] acc obtain w2 where x: "db_execute e sql ?w1 = (Inr (), w2)"
      by blast
    from db_execute_fields[OF x] have w2: "files w2 = files w" by simp
    have sc: "script_of w2 = script_of w" by (rule script_of_cong) (rule w2)
    have pre: "\<forall>r\<in>set rs. v < Revision.version r \<longrightarrow>
      files w2 (file r) \<noteq> None \<and> (\<forall>h. db_accepts e h (script_of w2 r))"
      using Cons.prems unfolding sc w2 by simp
    from Cons.IH[OF pre, of "s + 1"] obtain w' where
      "apply_revisions e v rs (s + 1) w2 =
         (Inr (s + 1 + int (length (filter (\<lambda>r. v < Revision.version r) rs))), w')"
      by blast
    with True f x show ?thesis by (simp add: apply_revisions_step del: apply_revisions.simps)
  qed
qed

lemma apply_revisions_idle:
  "\<forall>r\<in>set rs. \<not> v < Revision.version r \<Longrightarrow> apply_revisions e v rs s w = (Inr s, w)"
  by (induction rs) simp_all

section \<open>Saving the state, and the whole of \<open>upgrade\<close>\<close>

lemma temp_name_neq: "temp_name e m \<noteq> filename m"
  by (simp add: temp_name_def)

lemma save_Inr:
  "save e m w = (Inr u, w') \<Longrightarrow>
     temp_write e = WriteOk \<and> replace_ok e \<and>
     w' = w\<lparr>files := ((files w)(temp_name e m \<mapsto> json_dumps (dump m),
                               filename m \<mapsto> json_dumps (dump m)))(temp_name e m := None),
            trace := trace w @ [FsWrite (temp_name e m) (json_dumps (dump m)),
                                FsReplace (temp_name e m) (filename m)]\<rparr>"
  using temp_name_neq[of e m]
  by (cases "temp_write e"; cases "replace_ok e")
     (auto simp: save_def write_file_def os_replace_def Let_def)

lemma save_ok:
  "temp_write e = WriteOk \<Longrightarrow> replace_ok e \<Longrightarrow>
   save e m w =
     (Inr (),
      w\<lparr>files := ((files w)(temp_name e m \<mapsto> json_dumps (dump m),
                          filename m \<mapsto> json_dumps (dump m)))(temp_name e m := None),
        trace := trace w @ [FsWrite (temp_name e m) (json_dumps (dump m)),
                            FsReplace (temp_name e m) (filename m)]\<rparr>)"
  using temp_name_neq[of e m]
  by (simp add: save_def write_file_def os_replace_def Let_def)

lemma save_Inl_target:
  "save e m w = (Inl err, w') \<Longrightarrow>
     files w' (filename m) = files w (filename m) \<and> db_committed w' = db_committed w \<and>
     db_pending w' = db_pending w"
  using temp_name_neq[of e m]
  by (cases "temp_write e"; cases "replace_ok e")
     (auto simp: save_def write_file_def os_replace_def Let_def)


lemma upgrade_Inr:
  assumes "upgrade e m w = (Inr n, m', w')"
  shows "n = int (length (pending_revisions m)) \<and>
         m' = m\<lparr>Migrations.version := Migrations.version m + n\<rparr> \<and>
         temp_write e = WriteOk \<and> replace_ok e \<and>
         files w' = ((files w)(temp_name e m \<mapsto> json_dumps (dump m'),
                               filename m \<mapsto> json_dumps (dump m')))(temp_name e m := None) \<and>
         db_pending w' = [] \<and> \<not> db_in_transaction w' \<and>
         trace w' = trace w @ run_events w (pending_revisions m) @
            [FsWrite (temp_name e m) (json_dumps (dump m')),
             FsReplace (temp_name e m) (filename m), DbCommit, DbCommit]"
proof -
  from assms obtain w1 where b: "upgrade_body e m w = (Inr n, m', w1)" and w': "w' = db_commit w1"
    by (auto simp: upgrade_def split: prod.splits sum.splits)
  from b obtain w2 where a: "apply_revisions e (Migrations.version m) (ordered_revisions m) 0 w = (Inr n, w2)"
    and m': "m' = m\<lparr>Migrations.version := Migrations.version m + n\<rparr>"
    and s: "\<exists>w3. save e m' w2 = (Inr (), w3) \<and> w1 = db_commit w3"
    by (auto simp: upgrade_body_def Let_def split: prod.splits sum.splits)
  from s obtain w3 where s3: "save e m' w2 = (Inr (), w3)" and w1: "w1 = db_commit w3" by blast
  have tn: "temp_name e m' = temp_name e m" and fn: "filename m' = filename m"
    by (simp_all add: m' temp_name_def)
  note A = apply_revisions_Inr[OF a, folded pending_revisions_def]
  note S = save_Inr[OF s3, unfolded tn fn]
  from A have n: "n = int (length (pending_revisions m))" and f2: "files w2 = files w"
    and t2: "trace w2 = trace w @ run_events w (pending_revisions m)" by simp_all
  from S have ok: "temp_write e = WriteOk" "replace_ok e"
    and w3: "w3 = w2\<lparr>files := ((files w2)(temp_name e m \<mapsto> json_dumps (dump m'),
                               filename m \<mapsto> json_dumps (dump m')))(temp_name e m := None),
            trace := trace w2 @ [FsWrite (temp_name e m) (json_dumps (dump m')),
                                FsReplace (temp_name e m) (filename m)]\<rparr>" by simp_all
  show ?thesis
    using n ok m' by (simp add: w' w1 w3 f2 t2 db_commit_def)
qed


section \<open>Properties of \<open>upgrade\<close>\<close>




text \<open>
  C2: a successful \<open>upgrade\<close> that applied \<open>n\<close> revisions leaves the version advanced by
  \<open>n\<close>, and what it adds to the trace is, in this order: the reading and execution of the
  pending scripts, the writing of the state with the advanced version to the temporary file,
  the replacement of the state file by it, and only then the commits. No commit and no file
  write happens before the state is written.
\<close>

theorem upgrade_saves_before_commit:
  "upgrade e m w = (Inr n, m', w') \<Longrightarrow>
     Migrations.version m' = Migrations.version m + n \<and>
     n = int (length (pending_revisions m)) \<and>
     trace w' = trace w @ run_events w (pending_revisions m) @
        [FsWrite (temp_name e m)
           (json_dumps \<lparr>Revisions.version = Migrations.version m + n,
                        Revisions.database_uri = Migrations.database_uri m\<rparr>),
         FsReplace (temp_name e m) (filename m), DbCommit, DbCommit] \<and>
     DbCommit \<notin> set (run_events w (pending_revisions m)) \<and>
     filter is_fs_write (run_events w (pending_revisions m)) = []"
proof -
  assume u: "upgrade e m w = (Inr n, m', w')"
  have a: "DbCommit \<notin> set (run_events w rs)" for rs
    by (induction rs) (auto simp: run_events_def)
  have b: "filter is_fs_write (run_events w rs) = []" for rs
    by (induction rs) (auto simp: run_events_def)
  from upgrade_Inr[OF u] a b show ?thesis
    by (simp add: dump_def)
qed

theorem upgrade_saves_before_commit_witness:
  "fst (upgrade env_ok engine_123 disk) = Inr 3 \<and>
   Migrations.version (fst (snd (upgrade env_ok engine_123 disk))) = 3 \<and>
   trace (snd (snd (upgrade env_ok engine_123 disk))) =
     [FsRead ''app/migrations/V1__create_users.sql'', DbExecute ''CREATE TABLE users (id)'',
      FsRead ''app/migrations/V2__add_email.sql'', DbExecute ''ALTER TABLE users ADD email'',
      FsRead ''app/migrations/V3__add_index.sql'', DbExecute ''CREATE INDEX i ON users (id)'',
      FsWrite ''migrations/revisions.json.0f8b.tmp''
        (json_dumps \<lparr>Revisions.version = 3, Revisions.database_uri = ''db.sqlite''\<rparr>),
      FsReplace ''migrations/revisions.json.0f8b.tmp'' ''migrations/revisions.json'',
      DbCommit, DbCommit]"
proof -
  have r: "fst (upgrade env_ok engine_123 disk) = Inr 3"
    by code_simp
  then have eq: "upgrade env_ok engine_123 disk =
      (Inr 3, fst (snd (upgrade env_ok engine_123 disk)), snd (snd (upgrade env_ok engine_123 disk)))"
    by (metis prod.collapse)
  have p: "pending_revisions engine_123 = [rev1, rev2, rev3]"
    by code_simp
  have v: "Migrations.version engine_123 = 0" "Migrations.database_uri engine_123 = ''db.sqlite''"
    "filename engine_123 = ''migrations/revisions.json''" "trace disk = []"
    "temp_name env_ok engine_123 = ''migrations/revisions.json.0f8b.tmp''"
    by (simp_all add: engine_123_def engine_def disk_def temp_name_def env_ok_def)
  have s: "run_events disk [rev1, rev2, rev3] =
     [FsRead ''app/migrations/V1__create_users.sql'', DbExecute ''CREATE TABLE users (id)'',
      FsRead ''app/migrations/V2__add_email.sql'', DbExecute ''ALTER TABLE users ADD email'',
      FsRead ''app/migrations/V3__add_index.sql'', DbExecute ''CREATE INDEX i ON users (id)'']"
    by (simp add: run_events_def script_of_def rev1_def rev2_def rev3_def disk_def)
  from upgrade_saves_before_commit[OF eq] r show ?thesis
    by (simp add: p v s)
qed

section \<open>The order of the catalog, and upgrades that succeed\<close>

text \<open>
  The catalog that \<open>get_revisions\<close> builds has each version once, as the key of the
  revision that carries it, whatever the directory holds.
\<close>

lemma update_catalog_ok:
  "catalog_ok revs \<Longrightarrow> catalog_ok (AList.update (Revision.version r) r revs)"
proof -
  assume a: "catalog_ok revs"
  have "list_all (\<lambda>(k, r). Revision.version r = k) (AList.update (Revision.version r) r al)"
    if "list_all (\<lambda>(k, r). Revision.version r = k) al" for al
    using that by (induction al) auto
  with a show ?thesis
    by (simp add: catalog_ok_def distinct_update)
qed

lemma get_revisions_catalog_ok: "catalog_ok (get_revisions rt names)"
proof -
  have "catalog_ok (foldl (\<lambda>result name.
              case REVISION_FILE name of
                None \<Rightarrow> result
              | Some m \<Rightarrow>
                  (let rev = from_match m (path_join (path_join rt ''migrations'') name)
                   in AList.update (Revision.version rev) rev result)) acc ns)"
    if "catalog_ok acc" for acc ns
    using that
    by (induction ns arbitrary: acc) (auto simp: Let_def update_catalog_ok split: option.splits)
  moreover have "catalog_ok []" by (simp add: catalog_ok_def)
  ultimately show ?thesis unfolding get_revisions_def by blast
qed

lemma distinct_map_sort_key: "distinct (map f (sort_key f xs)) = distinct (map f xs)"
  by (induction xs) (simp_all add: distinct_insort_key)

lemma catalog_versions:
  "catalog_ok revs \<Longrightarrow> map Revision.version (map snd revs) = map fst revs"
  by (induction revs) (auto simp: catalog_ok_def)

lemma ordered_versions:
  assumes "catalog_ok (revisions m)"
  shows "sorted (map Revision.version (ordered_revisions m))"
    and "distinct (map Revision.version (ordered_revisions m))"
    and "set (map Revision.version (ordered_revisions m)) = set (map fst (revisions m))"
proof -
  show "sorted (map Revision.version (ordered_revisions m))"
    by (simp add: ordered_revisions_def)
  have d: "distinct (map Revision.version (map snd (revisions m)))"
    unfolding catalog_versions[OF assms] using assms by (simp add: catalog_ok_def)
  then show "distinct (map Revision.version (ordered_revisions m))"
    unfolding ordered_revisions_def distinct_map_sort_key .
  have "set (map Revision.version (ordered_revisions m)) =
        set (map Revision.version (map snd (revisions m)))"
    by (simp only: ordered_revisions_def set_map set_sort)
  then show "set (map Revision.version (ordered_revisions m)) = set (map fst (revisions m))"
    unfolding catalog_versions[OF assms] .
qed

lemma run_events_filter:
  "filter is_db_execute (run_events w rs) = map (\<lambda>r. DbExecute (script_of w r)) rs"
  by (induction rs) (simp_all add: run_events_def)

lemma upgrade_succeeds:
  assumes clean: "\<forall>r\<in>set (pending_revisions m).
             files w (file r) \<noteq> None \<and> (\<forall>h. db_accepts e h (script_of w r))"
    and tw: "temp_write e = WriteOk" and ro: "replace_ok e"
  shows "\<exists>m' w'. upgrade e m w = (Inr (int (length (pending_revisions m))), m', w')"
proof -
  let ?v = "Migrations.version m"
  have pre: "\<forall>r\<in>set (ordered_revisions m). ?v < Revision.version r \<longrightarrow>
      files w (file r) \<noteq> None \<and> (\<forall>h. db_accepts e h (script_of w r))"
    using clean by (simp add: pending_revisions_def)
  from apply_revisions_succeeds[OF pre, of 0, folded pending_revisions_def]
  obtain w1 where A: "apply_revisions e ?v (ordered_revisions m) 0 w =
      (Inr (int (length (pending_revisions m))), w1)"
    by auto
  show ?thesis
    unfolding upgrade_def upgrade_body_def A
    by (simp add: Let_def save_ok[OF tw ro])
qed

lemma upgrade_nothing_pending:
  assumes "pending_revisions m = []"
  shows "fst (snd (upgrade e m w)) = m"
    and "filter is_db_execute (drop (length (trace w)) (trace (snd (snd (upgrade e m w))))) = []"
    and "temp_write e = WriteOk \<Longrightarrow> replace_ok e \<Longrightarrow> fst (upgrade e m w) = Inr 0"
proof -
  have pre: "\<forall>r\<in>set (ordered_revisions m). \<not> Migrations.version m < Revision.version r"
    using assms by (auto simp: pending_revisions_def filter_empty_conv)
  have A: "apply_revisions e (Migrations.version m) (ordered_revisions m) 0 w = (Inr 0, w)"
    by (rule apply_revisions_idle[OF pre])
  have m0: "m\<lparr>Migrations.version := Migrations.version m + 0\<rparr> = m" by simp
  have body: "upgrade_body e m w =
     (case save e m w of (Inl err, w2) \<Rightarrow> (Inl err, m, w2) | (Inr u, w2) \<Rightarrow> (Inr 0, m, db_commit w2))"
    unfolding upgrade_body_def A by (simp add: Let_def)
  show "fst (snd (upgrade e m w)) = m"
    unfolding upgrade_def body by (simp split: prod.splits sum.splits)
  show "filter is_db_execute (drop (length (trace w)) (trace (snd (snd (upgrade e m w))))) = []"
    unfolding upgrade_def body
    by (cases "temp_write e"; cases "replace_ok e")
       (simp_all add: save_def write_file_def os_replace_def temp_name_neq db_commit_def
          db_rollback_def Let_def split: prod.splits sum.splits)
  show "fst (upgrade e m w) = Inr 0" if "temp_write e = WriteOk" "replace_ok e"
    unfolding upgrade_def body by (simp add: save_ok[OF that])
qed

text \<open>
  C3: with a catalog that holds exactly the versions 1, 2 and 3 and a state at version 0,
  \<open>upgrade\<close> (the scripts being readable and accepted by the database, the state file
  writable) executes the scripts of the three revisions, in the order 1, 2, 3, and nothing
  else, returns 3 and leaves the version at 3.
\<close>

theorem upgrade_three_revisions:
  assumes "catalog_ok (revisions m)"
    and "set (map fst (revisions m)) = {1, 2, 3}"
    and "Migrations.version m = 0"
    and "\<forall>r\<in>set (ordered_revisions m).
           files w (file r) \<noteq> None \<and> (\<forall>h. db_accepts e h (script_of w r))"
    and "temp_write e = WriteOk" and "replace_ok e"
  shows "map Revision.version (ordered_revisions m) = [1, 2, 3] \<and>
         fst (upgrade e m w) = Inr 3 \<and>
         Migrations.version (fst (snd (upgrade e m w))) = 3 \<and>
         filter is_db_execute (drop (length (trace w)) (trace (snd (snd (upgrade e m w))))) =
           map (\<lambda>r. DbExecute (script_of w r)) (ordered_revisions m)"
proof -
  have "sorted [1, 2, 3 :: int]" "distinct [1, 2, 3 :: int]" by simp_all
  moreover have "set (map Revision.version (ordered_revisions m)) = set [1, 2, 3 :: int]"
    using ordered_versions(3)[OF assms(1)] assms(2) by simp
  ultimately have vs: "map Revision.version (ordered_revisions m) = [1, 2, 3]"
    using ordered_versions(1,2)[OF assms(1)] by (metis sorted_distinct_set_unique)
  have "\<forall>r\<in>set (ordered_revisions m). Migrations.version m < Revision.version r"
  proof
    fix r assume "r \<in> set (ordered_revisions m)"
    then have "Revision.version r \<in> set (map Revision.version (ordered_revisions m))" by simp
    then show "Migrations.version m < Revision.version r"
      unfolding vs using assms(3) by auto
  qed
  then have pend: "pending_revisions m = ordered_revisions m"
    by (simp add: pending_revisions_def)
  have len: "length (ordered_revisions m) = 3"
    using arg_cong[OF vs, of length] by simp
  from upgrade_succeeds[of m w e] assms(4,5,6) pend len
  obtain m' w' where u: "upgrade e m w = (Inr 3, m', w')" by auto
  from upgrade_Inr[OF u] show ?thesis
    by (simp add: u vs pend assms(3) run_events_filter)
qed

theorem upgrade_three_revisions_witness:
  "map Revision.version (ordered_revisions engine_123) = [1, 2, 3] \<and>
   fst (upgrade env_ok engine_123 disk) = Inr 3 \<and>
   Migrations.version (fst (snd (upgrade env_ok engine_123 disk))) = 3 \<and>
   filter is_db_execute (trace (snd (snd (upgrade env_ok engine_123 disk)))) =
     [DbExecute ''CREATE TABLE users (id)'', DbExecute ''ALTER TABLE users ADD email'',
      DbExecute ''CREATE INDEX i ON users (id)'']"
proof -
  have o: "ordered_revisions engine_123 = [rev1, rev2, rev3]"
    by code_simp
  have 1: "catalog_ok (revisions engine_123)"
    by (simp add: catalog_ok_def engine_123_def engine_def rev1_def rev2_def rev3_def)
  have 2: "set (map fst (revisions engine_123)) = {1, 2, 3}"
    by (auto simp: engine_123_def engine_def)
  have 3: "Migrations.version engine_123 = 0"
    by (simp add: engine_123_def engine_def)
  have 4: "\<forall>r\<in>set (ordered_revisions engine_123).
           files disk (file r) \<noteq> None \<and> (\<forall>h. db_accepts env_ok h (script_of disk r))"
    unfolding o by (simp add: disk_def rev1_def rev2_def rev3_def env_ok_def)
  have 5: "temp_write env_ok = WriteOk" and 6: "replace_ok env_ok"
    by (simp_all add: env_ok_def)
  have s: "script_of disk rev1 = ''CREATE TABLE users (id)''"
    "script_of disk rev2 = ''ALTER TABLE users ADD email''"
    "script_of disk rev3 = ''CREATE INDEX i ON users (id)''"
    by (simp_all add: script_of_def rev1_def rev2_def rev3_def disk_def)
  have t: "trace disk = []" by (simp add: disk_def)
  from upgrade_three_revisions[OF 1 2 3 4 5 6] show ?thesis
    by (simp add: o s t)
qed

text \<open>
  C4: a successful \<open>upgrade\<close> advances the version by the number of revisions it applied,
  not to the highest version it applied. A revision it applied whose version is above the new
  version is therefore still pending afterwards, and the next successful \<open>upgrade\<close> executes
  its script again. With the versions 1 and 3 and a state at 0 (the witness), the version
  ends at 2, below the applied version 3, and revision 3 runs a second time.
\<close>

theorem upgrade_advances_by_count:
  "upgrade e m w = (Inr n, m', w') \<Longrightarrow>
     n = int (length (pending_revisions m)) \<and>
     Migrations.version m' = Migrations.version m + n \<and>
     (\<forall>r\<in>set (pending_revisions m).
        Migrations.version m' < Revision.version r \<longrightarrow>
          r \<in> set (pending_revisions m') \<and>
          (\<forall>e2 n2 m2 w2. upgrade e2 m' w' = (Inr n2, m2, w2) \<longrightarrow>
             DbExecute (script_of w' r) \<in> set (drop (length (trace w')) (trace w2))))"
proof -
  assume u: "upgrade e m w = (Inr n, m', w')"
  note U = upgrade_Inr[OF u]
  from U have m': "m' = m\<lparr>Migrations.version := Migrations.version m + n\<rparr>" by blast
  have o: "ordered_revisions m' = ordered_revisions m"
    by (simp add: m' ordered_revisions_def)
  have again: "r \<in> set (pending_revisions m') \<and>
          (\<forall>e2 n2 m2 w2. upgrade e2 m' w' = (Inr n2, m2, w2) \<longrightarrow>
             DbExecute (script_of w' r) \<in> set (drop (length (trace w')) (trace w2)))"
    if r: "r \<in> set (pending_revisions m)" and lt: "Migrations.version m' < Revision.version r" for r
  proof
    show p: "r \<in> set (pending_revisions m')"
      using r lt by (simp add: pending_revisions_def o)
    show "\<forall>e2 n2 m2 w2. upgrade e2 m' w' = (Inr n2, m2, w2) \<longrightarrow>
             DbExecute (script_of w' r) \<in> set (drop (length (trace w')) (trace w2))"
    proof (intro allI impI)
      fix e2 n2 m2 w2 assume u2: "upgrade e2 m' w' = (Inr n2, m2, w2)"
      have "DbExecute (script_of w' r) \<in> set (run_events w' (pending_revisions m'))"
        using p by (auto simp: run_events_def)
      with upgrade_Inr[OF u2] show "DbExecute (script_of w' r) \<in> set (drop (length (trace w')) (trace w2))"
        by simp
    qed
  qed
  from U again show ?thesis by (simp add: m')
qed

theorem upgrade_advances_by_count_witness:
  "fst (upgrade env_ok engine_13 disk) = Inr 2 \<and>
   Migrations.version (fst (snd (upgrade env_ok engine_13 disk))) = 2 \<and>
   rev3 \<in> set (pending_revisions engine_13) \<and> Revision.version rev3 = 3 \<and>
   rev3 \<in> set (pending_revisions (fst (snd (upgrade env_ok engine_13 disk)))) \<and>
   fst (upgrade env_ok (fst (snd (upgrade env_ok engine_13 disk)))
          (snd (snd (upgrade env_ok engine_13 disk)))) = Inr 1 \<and>
   DbExecute ''CREATE INDEX i ON users (id)'' \<in>
     set (drop (length (trace (snd (snd (upgrade env_ok engine_13 disk)))))
            (trace (snd (snd (upgrade env_ok (fst (snd (upgrade env_ok engine_13 disk)))
               (snd (snd (upgrade env_ok engine_13 disk))))))))"
proof -
  let ?m' = "fst (snd (upgrade env_ok engine_13 disk))"
  let ?w' = "snd (snd (upgrade env_ok engine_13 disk))"
  have r: "fst (upgrade env_ok engine_13 disk) = Inr 2"
    by code_simp
  then have eq: "upgrade env_ok engine_13 disk = (Inr 2, ?m', ?w')"
    by (metis prod.collapse)
  have r2: "fst (upgrade env_ok ?m' ?w') = Inr 1"
    by code_simp
  then have eq2: "upgrade env_ok ?m' ?w' =
      (Inr 1, fst (snd (upgrade env_ok ?m' ?w')), snd (snd (upgrade env_ok ?m' ?w')))"
    by (metis prod.collapse)
  have p: "rev3 \<in> set (pending_revisions engine_13)"
    by code_simp
  have v: "Migrations.version engine_13 = 0" "Revision.version rev3 = 3"
    by (simp_all add: engine_13_def engine_def rev3_def)
  have s: "script_of ?w' rev3 = ''CREATE INDEX i ON users (id)''"
    by code_simp
  note T = upgrade_advances_by_count[OF eq]
  from T have v': "Migrations.version ?m' = 2" by (simp add: v)
  then have lt: "Migrations.version ?m' < Revision.version rev3" by (simp add: v)
  from T p have "Migrations.version ?m' < Revision.version rev3 \<longrightarrow>
          rev3 \<in> set (pending_revisions ?m') \<and>
          (\<forall>e2 n2 m2 w2. upgrade e2 ?m' ?w' = (Inr n2, m2, w2) \<longrightarrow>
             DbExecute (script_of ?w' rev3) \<in> set (drop (length (trace ?w')) (trace w2)))"
    by blast
  with lt have a: "rev3 \<in> set (pending_revisions ?m')"
    and b: "\<forall>e2 n2 m2 w2. upgrade e2 ?m' ?w' = (Inr n2, m2, w2) \<longrightarrow>
             DbExecute (script_of ?w' rev3) \<in> set (drop (length (trace ?w')) (trace w2))"
    by blast+
  from b eq2 have c: "DbExecute (script_of ?w' rev3) \<in>
      set (drop (length (trace ?w')) (trace (snd (snd (upgrade env_ok ?m' ?w')))))"
    by blast
  show ?thesis
    using r v' p v(2) a r2 c unfolding s by (intro conjI)
qed

text \<open>
  C6, as the code has it: when the revisions applied by a successful \<open>upgrade\<close> carry the
  versions that follow the state's version without a gap, a second \<open>upgrade\<close> on the same
  engine, with the same catalog, executes no script and leaves the engine as it is, and it
  returns 0 when its write of the state file succeeds.
\<close>

theorem upgrade_again_without_gaps:
  assumes "upgrade e m w = (Inr n, m', w')"
    and "map Revision.version (pending_revisions m) =
           [Migrations.version m + 1 .. Migrations.version m + n]"
  shows "fst (snd (upgrade e2 m' w')) = m' \<and>
         filter is_db_execute (drop (length (trace w')) (trace (snd (snd (upgrade e2 m' w'))))) = [] \<and>
         (temp_write e2 = WriteOk \<and> replace_ok e2 \<longrightarrow> fst (upgrade e2 m' w') = Inr 0)"
proof -
  note U = upgrade_Inr[OF assms(1)]
  from U have m': "m' = m\<lparr>Migrations.version := Migrations.version m + n\<rparr>"
    and n: "n = int (length (pending_revisions m))" by blast+
  have o: "ordered_revisions m' = ordered_revisions m"
    by (simp add: m' ordered_revisions_def)
  have "\<not> Migrations.version m + n < Revision.version r" if "r \<in> set (ordered_revisions m)" for r
  proof (cases "Migrations.version m < Revision.version r")
    case True
    with that have "r \<in> set (pending_revisions m)" by (simp add: pending_revisions_def)
    then have "Revision.version r \<in> set (map Revision.version (pending_revisions m))" by simp
    then show ?thesis unfolding assms(2) by simp
  next
    case False
    with n show ?thesis by simp
  qed
  then have p: "pending_revisions m' = []"
    unfolding pending_revisions_def o by (simp add: m' filter_empty_conv)
  from upgrade_nothing_pending[OF p, where e = e2 and w = w'] show ?thesis by blast
qed

theorem upgrade_again_without_gaps_witness:
  "fst (upgrade env_ok engine_123 disk) = Inr 3 \<and>
   map Revision.version (pending_revisions engine_123) = [1, 2, 3] \<and>
   fst (upgrade env_ok (fst (snd (upgrade env_ok engine_123 disk)))
          (snd (snd (upgrade env_ok engine_123 disk)))) = Inr 0 \<and>
   Migrations.version (fst (snd (upgrade env_ok (fst (snd (upgrade env_ok engine_123 disk)))
          (snd (snd (upgrade env_ok engine_123 disk)))))) = 3"
proof -
  let ?m' = "fst (snd (upgrade env_ok engine_123 disk))"
  let ?w' = "snd (snd (upgrade env_ok engine_123 disk))"
  have r: "fst (upgrade env_ok engine_123 disk) = Inr 3"
    by code_simp
  then have eq: "upgrade env_ok engine_123 disk = (Inr 3, ?m', ?w')"
    by (metis prod.collapse)
  have p: "map Revision.version (pending_revisions engine_123) = [1, 2, 3]"
    by code_simp
  have v: "Migrations.version engine_123 = 0"
    by (simp add: engine_123_def engine_def)
  have up: "[0 + 1 .. 0 + 3] = [1, 2, 3 :: int]"
    by code_simp
  have c: "map Revision.version (pending_revisions engine_123) =
           [Migrations.version engine_123 + 1 .. Migrations.version engine_123 + 3]"
    unfolding v up by (rule p)
  have ok: "temp_write env_ok = WriteOk \<and> replace_ok env_ok"
    by (simp add: env_ok_def)
  have v': "Migrations.version ?m' = 3"
    by code_simp
  note T = upgrade_again_without_gaps[OF eq c, of env_ok]
  from T ok have z: "fst (upgrade env_ok ?m' ?w') = Inr 0" by blast
  from T have "fst (snd (upgrade env_ok ?m' ?w')) = ?m'" by blast
  then have "Migrations.version (fst (snd (upgrade env_ok ?m' ?w'))) = 3"
    using v' by simp
  with r p z show ?thesis by (intro conjI)
qed

text \<open>
  C6 as the claim states it fails on a catalog with a gap: with the versions 1 and 3 and a
  state at 0, the first \<open>upgrade\<close> returns 2 and leaves the version at 2; the second one, on
  the same catalog, returns 1 and moves the version to 3.
\<close>

theorem upgrade_again_gap_counterexample:
  "fst (upgrade env_ok engine_13 disk) = Inr 2 \<and>
   Migrations.version (fst (snd (upgrade env_ok engine_13 disk))) = 2 \<and>
   fst (upgrade env_ok (fst (snd (upgrade env_ok engine_13 disk)))
          (snd (snd (upgrade env_ok engine_13 disk)))) = Inr 1 \<and>
   Migrations.version (fst (snd (upgrade env_ok (fst (snd (upgrade env_ok engine_13 disk)))
          (snd (snd (upgrade env_ok engine_13 disk)))))) = 3"
proof (intro conjI)
  show "fst (upgrade env_ok engine_13 disk) = Inr 2"
    by code_simp
  show "Migrations.version (fst (snd (upgrade env_ok engine_13 disk))) = 2"
    by code_simp
  show "fst (upgrade env_ok (fst (snd (upgrade env_ok engine_13 disk)))
          (snd (snd (upgrade env_ok engine_13 disk)))) = Inr 1"
    by code_simp
  show "Migrations.version (fst (snd (upgrade env_ok (fst (snd (upgrade env_ok engine_13 disk)))
          (snd (snd (upgrade env_ok engine_13 disk)))))) = 3"
    by code_simp
qed

section \<open>The log, and saving the state\<close>

text \<open>
  C7, as the code has it: \<open>log\<close> prints every revision of the catalog once; without
  \<open>--reverse\<close> the versions descend (the newest first), with \<open>--reverse\<close> they ascend (the
  oldest first), and each of the two sequences is the reverse of the other.
\<close>

theorem log_order:
  "sorted (rev (map Revision.version (log_revs False m))) \<and>
   sorted (map Revision.version (log_revs True m)) \<and>
   set (log_revs b m) = snd ` set (revisions m) \<and>
   length (log_revs b m) = length (revisions m) \<and>
   log_revs True m = rev (log_revs False m) \<and>
   trace (log b m w) = trace w @ map (\<lambda>r. Echo (log_line r)) (log_revs b m)"
proof -
  have s: "sorted (map Revision.version (ordered_revisions m))"
    by (simp add: ordered_revisions_def)
  have e: "trace (foldl (\<lambda>w' r. echo (log_line r) w') w rs) =
           trace w @ map (\<lambda>r. Echo (log_line r)) rs" for rs
    by (induction rs arbitrary: w) (simp_all add: echo_def)
  show ?thesis
    using s by (simp add: log_revs_def log_def e rev_map ordered_revisions_def)
qed

text \<open>
  C7 as the claim states it fails: for the catalog with the versions 1 and 3, \<open>log\<close>
  without \<open>--reverse\<close> lists 3 before 1, which is not ascending, and with \<open>--reverse\<close> it
  lists 1 before 3, which is not descending.
\<close>

theorem log_order_counterexample:
  "map Revision.version (log_revs False engine_13) = [3, 1] \<and>
   \<not> sorted (map Revision.version (log_revs False engine_13)) \<and>
   map Revision.version (log_revs True engine_13) = [1, 3] \<and>
   \<not> sorted (rev (map Revision.version (log_revs True engine_13)))"
proof -
  have a: "map Revision.version (log_revs False engine_13) = [3, 1]"
    by code_simp
  have b: "map Revision.version (log_revs True engine_13) = [1, 3]"
    by code_simp
  show ?thesis unfolding a b by simp
qed

text \<open>
  C9, as the code has it: \<open>save\<close> changes the state file only by the final rename. When it
  fails, the state file holds what it held before. When it succeeds, the state file holds the
  whole serialised state and the temporary file is gone. The temporary file is not deleted
  on failure: after a failed write it holds what was written, after a failed rename it holds
  the whole serialised state.
\<close>

theorem save_atomic:
  "(case save e m w of
      (Inl err, w') \<Rightarrow>
         files w' (filename m) = files w (filename m) \<and>
         files w' (temp_name e m) =
           (case temp_write e of
              OpenFails \<Rightarrow> files w (temp_name e m)
            | WriteFails k \<Rightarrow> Some (take k (json_dumps (dump m)))
            | WriteOk \<Rightarrow> Some (json_dumps (dump m)))
    | (Inr u, w') \<Rightarrow>
         files w' (filename m) = Some (json_dumps (dump m)) \<and>
         files w' (temp_name e m) = None)"
  using temp_name_neq[of e m]
  by (cases "temp_write e"; cases "replace_ok e")
     (simp_all add: save_def write_file_def os_replace_def Let_def)

text \<open>
  C9 as the claim states it fails: when the write of the temporary file breaks off after nine
  characters, \<open>save\<close> fails and the temporary file, which did not exist before, stays on
  disk with those nine characters; it is neither renamed nor deleted.
\<close>

theorem save_leaves_temp_counterexample:
  \<open>fst (save env_disk_full engine_123 disk) = Inl (OSError ''migrations/revisions.json.0f8b.tmp'') \<and>
   files disk ''migrations/revisions.json.0f8b.tmp'' = None \<and>
   files (snd (save env_disk_full engine_123 disk)) ''migrations/revisions.json.0f8b.tmp'' =
     Some ''{"version''\<close>
proof (intro conjI)
  show "fst (save env_disk_full engine_123 disk) = Inl (OSError ''migrations/revisions.json.0f8b.tmp'')"
    by code_simp
  show "files disk ''migrations/revisions.json.0f8b.tmp'' = None"
    by code_simp
  show \<open>files (snd (save env_disk_full engine_123 disk)) ''migrations/revisions.json.0f8b.tmp'' =
     Some ''{"version''\<close>
    by code_simp
qed

section \<open>Creating a revision\<close>

lemma create_revision_ok:
  assumes "stub_write e = WriteOk" and "temp_write e = WriteOk" and "replace_ok e"
  shows "create_revision e m reason knd w =
    (Inr \<lparr>kind = knd, version = Migrations.version m + 1, description = reason,
          file = path_join (path_join (root m) (migrations_path m))
                   (knd @ str_int (Migrations.version m + 1) @ ''__'' @ re_sub_space reason @ ''.sql'')\<rparr>,
     w\<lparr>files :=
         ((files w)
            (path_join (path_join (root m) (migrations_path m))
               (knd @ str_int (Migrations.version m + 1) @ ''__'' @ re_sub_space reason @ ''.sql'')
               \<mapsto> stub_text e m reason,
             temp_name e m \<mapsto> json_dumps (dump m),
             filename m \<mapsto> json_dumps (dump m)))(temp_name e m := None),
       trace := trace w @
         [FsWrite (path_join (path_join (root m) (migrations_path m))
               (knd @ str_int (Migrations.version m + 1) @ ''__'' @ re_sub_space reason @ ''.sql''))
            (stub_text e m reason),
          FsWrite (temp_name e m) (json_dumps (dump m)),
          FsReplace (temp_name e m) (filename m)]\<rparr>)"
  unfolding create_revision_def Let_def
  by (simp add: write_file_def assms(1) save_ok[OF assms(2,3)])

text \<open>
  C5, as the code has it: \<open>create_revision\<close> has no guard of its own. Whenever its writes
  succeed it returns the new revision, whether or not \<open>is_next_revision_taken\<close> holds, and
  so also on a second call with no upgrade in between. The guard is in the command
  \<open>migrate\<close>: when \<open>is_next_revision_taken\<close> holds it prints its two messages and returns
  without calling \<open>create_revision\<close>, so that no file is written. (The second message is
  the hint, which \<open>click.secho\<close> prints in bold.)
\<close>

theorem create_revision_unguarded:
  "(stub_write e = WriteOk \<and> temp_write e = WriteOk \<and> replace_ok e \<longrightarrow>
      (\<exists>r w'. create_revision e m reason knd w = (Inr r, w') \<and>
               Revision.version r = Migrations.version m + 1)) \<and>
   (is_next_revision_taken m \<longrightarrow>
      migrate e m reason w =
        (Inr (),
         w\<lparr>trace := trace w @
            [Echo ''an unapplied migration already exists for the next version, exiting'',
             Echo (style_bold ''hint: apply pending migrations with the `upgrade` command'')]\<rparr>))"
proof (intro conjI impI)
  assume "stub_write e = WriteOk \<and> temp_write e = WriteOk \<and> replace_ok e"
  then have a: "stub_write e = WriteOk" "temp_write e = WriteOk" "replace_ok e" by simp_all
  show "\<exists>r w'. create_revision e m reason knd w = (Inr r, w') \<and>
               Revision.version r = Migrations.version m + 1"
    unfolding create_revision_ok[OF a] by simp
next
  assume "is_next_revision_taken m"
  then show "migrate e m reason w =
        (Inr (),
         w\<lparr>trace := trace w @
            [Echo ''an unapplied migration already exists for the next version, exiting'',
             Echo (style_bold ''hint: apply pending migrations with the `upgrade` command'')]\<rparr>)"
    by (simp add: migrate_def echo_def)
qed

theorem create_revision_unguarded_witness:
  "is_next_revision_taken engine_1 \<and>
   stub_write env_ok = WriteOk \<and> temp_write env_ok = WriteOk \<and> replace_ok env_ok \<and>
   (\<exists>r w'. create_revision env_ok engine_1 ''add email'' ''V'' disk = (Inr r, w') \<and>
            Revision.version r = 1) \<and>
   migrate env_ok engine_1 ''add email'' disk =
     (Inr (),
      disk\<lparr>trace :=
         [Echo ''an unapplied migration already exists for the next version, exiting'',
          Echo (style_bold ''hint: apply pending migrations with the `upgrade` command'')]\<rparr>)"
proof -
  have t: "is_next_revision_taken engine_1"
    by (simp add: is_next_revision_taken_def engine_1_def engine_def)
  have ok: "stub_write env_ok = WriteOk \<and> temp_write env_ok = WriteOk \<and> replace_ok env_ok"
    by (simp add: env_ok_def)
  have v: "Migrations.version engine_1 + 1 = 1" "trace disk = []"
    by (simp_all add: engine_1_def engine_def disk_def)
  from create_revision_unguarded[of env_ok engine_1 "''add email''" "''V''" disk] t ok
  show ?thesis unfolding v by simp
qed

text \<open>
  C5 as the claim states it fails: with revision 1 in the catalog and the state at version 0,
  \<open>is_next_revision_taken\<close> holds, and \<open>create_revision\<close> does not fail: it returns a
  revision with version 1. Called again on the world the first call left, with no upgrade in
  between, it returns a revision once more.
\<close>

theorem create_revision_no_guard_counterexample:
  "is_next_revision_taken engine_1 \<and>
   fst (create_revision env_ok engine_1 ''add email'' ''V'' disk) =
     Inr \<lparr>kind = ''V'', version = 1, description = ''add email'',
          file = ''app/migrations/V1__add_email.sql''\<rparr> \<and>
   fst (create_revision env_ok engine_1 ''add email'' ''V''
          (snd (create_revision env_ok engine_1 ''add email'' ''V'' disk))) =
     Inr \<lparr>kind = ''V'', version = 1, description = ''add email'',
          file = ''app/migrations/V1__add_email.sql''\<rparr>"
proof (intro conjI)
  show "is_next_revision_taken engine_1"
    by code_simp
  show "fst (create_revision env_ok engine_1 ''add email'' ''V'' disk) =
     Inr \<lparr>kind = ''V'', version = 1, description = ''add email'',
          file = ''app/migrations/V1__add_email.sql''\<rparr>"
    by code_simp
  show "fst (create_revision env_ok engine_1 ''add email'' ''V''
          (snd (create_revision env_ok engine_1 ''add email'' ''V'' disk))) =
     Inr \<lparr>kind = ''V'', version = 1, description = ''add email'',
          file = ''app/migrations/V1__add_email.sql''\<rparr>"
    by code_simp
qed

text \<open>
  C10: for every reason and every version \<open>v\<close> of the state, when its writes succeed,
  \<open>create_revision\<close> returns a revision with version \<open>v + 1\<close> whose file, in the migrations
  folder, is named by the kind, \<open>v + 1\<close>, two underscores, the reason with each whitespace
  character replaced by an underscore, and \<open>.sql\<close>. It writes to that file a stub that
  starts with the line naming revision \<open>v\<close>, and then saves the state, whose content is
  unchanged: the three file operations appear in the trace in this order.
\<close>

theorem create_revision_writes_stub:
  assumes "stub_write e = WriteOk" and "temp_write e = WriteOk" and "replace_ok e"
  shows "\<exists>stub.
     fst (create_revision e m reason knd w) =
       Inr \<lparr>kind = knd, version = Migrations.version m + 1, description = reason,
            file = root m @ ''/'' @ migrations_path m @ ''/'' @ knd @
                   str_int (Migrations.version m + 1) @ ''__'' @
                   map (\<lambda>c. if is_space c then CHR ''_'' else c) reason @ ''.sql''\<rparr> \<and>
     trace (snd (create_revision e m reason knd w)) = trace w @
       [FsWrite (root m @ ''/'' @ migrations_path m @ ''/'' @ knd @
                   str_int (Migrations.version m + 1) @ ''__'' @
                   map (\<lambda>c. if is_space c then CHR ''_'' else c) reason @ ''.sql'') stub,
        FsWrite (temp_name e m) (json_dumps (dump m)),
        FsReplace (temp_name e m) (filename m)] \<and>
     take (length (''-- Revises: V'' @ str_int (Migrations.version m))) stub =
       ''-- Revises: V'' @ str_int (Migrations.version m) \<and>
     stub = ''-- Revises: V'' @ str_int (Migrations.version m) @ [newline] @
            ''-- Creation Date: '' @ utcnow e @ '' UTC'' @ [newline] @
            ''-- Reason: '' @ reason @ [newline, newline] \<and>
     files (snd (create_revision e m reason knd w)) (filename m) = Some (json_dumps (dump m))"
proof -
  have "path_join (path_join (root m) (migrations_path m))
          (knd @ str_int (Migrations.version m + 1) @ ''__'' @ re_sub_space reason @ ''.sql'') =
        root m @ ''/'' @ migrations_path m @ ''/'' @ knd @
                   str_int (Migrations.version m + 1) @ ''__'' @
                   map (\<lambda>c. if is_space c then CHR ''_'' else c) reason @ ''.sql''"
    by (simp add: path_join_def re_sub_space_def)
  with create_revision_ok[OF assms, of m reason knd w] temp_name_neq[of e m] show ?thesis
    by (simp add: stub_text_def)
qed

theorem create_revision_writes_stub_witness:
  "stub_write env_ok = WriteOk \<and> temp_write env_ok = WriteOk \<and> replace_ok env_ok \<and>
   fst (create_revision env_ok engine_13 ''add  users table'' ''V'' disk) =
       Inr \<lparr>kind = ''V'', version = 1, description = ''add  users table'',
            file = ''app/migrations/V1__add__users_table.sql''\<rparr> \<and>
   files (snd (create_revision env_ok engine_13 ''add  users table'' ''V'' disk))
      ''migrations/revisions.json'' = Some (json_dumps (dump engine_13))"
proof -
  have ok: "stub_write env_ok = WriteOk" "temp_write env_ok = WriteOk" "replace_ok env_ok"
    by (simp_all add: env_ok_def)
  have n: "root engine_13 @ ''/'' @ migrations_path engine_13 @ ''/'' @ ''V'' @
                   str_int (Migrations.version engine_13 + 1) @ ''__'' @
                   map (\<lambda>c. if is_space c then CHR ''_'' else c) ''add  users table'' @ ''.sql'' =
           ''app/migrations/V1__add__users_table.sql''"
    by code_simp
  have v: "Migrations.version engine_13 + 1 = 1" "filename engine_13 = ''migrations/revisions.json''"
    by (simp_all add: engine_13_def engine_def)
  from create_revision_writes_stub[OF ok, of engine_13 "''add  users table''" "''V''" disk]
  have "fst (create_revision env_ok engine_13 ''add  users table'' ''V'' disk) =
       Inr \<lparr>kind = ''V'', version = Migrations.version engine_13 + 1,
            description = ''add  users table'',
            file = root engine_13 @ ''/'' @ migrations_path engine_13 @ ''/'' @ ''V'' @
                   str_int (Migrations.version engine_13 + 1) @ ''__'' @
                   map (\<lambda>c. if is_space c then CHR ''_'' else c) ''add  users table'' @ ''.sql''\<rparr>"
    and "files (snd (create_revision env_ok engine_13 ''add  users table'' ''V'' disk))
           (filename engine_13) = Some (json_dumps (dump engine_13))"
    by blast+
  then show ?thesis unfolding n unfolding v using ok by simp
qed

section \<open>The pattern matcher\<close>

lemma lit_Some:
  "lit p k s = Some a \<longleftrightarrow> (\<exists>r. s = p @ r \<and> k r = Some a)"
proof
  assume "lit p k s = Some a"
  then have t: "take (length p) s = p" and k: "k (drop (length p) s) = Some a"
    by (auto simp: lit_def split: if_splits)
  have "s = p @ drop (length p) s"
    using append_take_drop_id[of "length p" s] t by simp
  with k show "\<exists>r. s = p @ r \<and> k r = Some a" by blast
next
  assume "\<exists>r. s = p @ r \<and> k r = Some a"
  then show "lit p k s = Some a" by (auto simp: lit_def)
qed

lemma lit_append: "lit p k (p @ r) = k r"
  by (simp add: lit_def)

lemma dot_Some:
  "dot k s = Some a \<longleftrightarrow> (\<exists>c r. s = c # r \<and> c \<noteq> newline \<and> k r = Some a)"
  by (cases s) (auto simp: dot_def)

lemma backoff_Some:
  "backoff n k s = Some (g, a) \<Longrightarrow>
     \<exists>j. 0 < j \<and> j \<le> n \<and> g = take j s \<and> k (drop j s) = Some a"
proof (induction n)
  case 0
  then show ?case by simp
next
  case (Suc n)
  show ?case
  proof (cases "k (drop (Suc n) s)")
    case None
    with Suc.prems have "backoff n k s = Some (g, a)" by simp
    from Suc.IH[OF this] show ?thesis by (metis le_SucI)
  next
    case (Some b)
    with Suc.prems have "g = take (Suc n) s" "b = a" by simp_all
    with Some show ?thesis by blast
  qed
qed

lemma backoff_hit:
  "0 < n \<Longrightarrow> k (drop n s) = Some a \<Longrightarrow> backoff n k s = Some (take n s, a)"
  by (cases n) simp_all

lemma backoff_skip:
  "i \<le> n \<Longrightarrow> (\<And>j. i < j \<Longrightarrow> j \<le> n \<Longrightarrow> k (drop j s) = None) \<Longrightarrow>
   backoff n k s = backoff i k s"
proof (induction n)
  case 0
  then show ?case by simp
next
  case (Suc n)
  show ?case
  proof (cases "i = Suc n")
    case True
    then show ?thesis by simp
  next
    case False
    with Suc.prems(1) have le: "i \<le> n" by simp
    have "k (drop (Suc n) s) = None"
      using Suc.prems(2)[of "Suc n"] le by simp
    then have "backoff (Suc n) k s = backoff n k s" by simp
    also have "\<dots> = backoff i k s"
      using Suc.IH[OF le] Suc.prems(2) by simp
    finally show ?thesis .
  qed
qed

lemma plus_greedy_Some:
  assumes "plus_greedy P k s = Some (g, a)"
  shows "g \<noteq> [] \<and> (\<forall>c\<in>set g. P c) \<and> (\<exists>r. s = g @ r \<and> k r = Some a)"
proof -
  from backoff_Some[OF assms[unfolded plus_greedy_def]]
  obtain j where j: "0 < j" "j \<le> length (takeWhile P s)" "g = take j s" "k (drop j s) = Some a"
    by blast
  have "take j (takeWhile P s @ dropWhile P s) = take j (takeWhile P s)"
    using j(2) by (simp del: takeWhile_dropWhile_id)
  then have "take j s = take j (takeWhile P s)" by simp
  then have g: "g = take j (takeWhile P s)" using j(3) by simp
  have "\<forall>c\<in>set g. P c"
    unfolding g using set_takeWhileD in_set_takeD by metis
  moreover have "g \<noteq> []"
    unfolding g using j(1,2) by auto
  moreover have "s = g @ drop j s" unfolding j(3) by simp
  ultimately show ?thesis using j(4) by blast
qed

lemma plus_greedy_longest:
  assumes "g \<noteq> []" and "\<forall>c\<in>set g. P c" and "\<forall>c\<in>set t. P c"
    and stop: "r = [] \<or> \<not> P (hd r)"
    and hit: "k (t @ r) = Some a"
    and miss: "\<And>u v. u \<noteq> [] \<Longrightarrow> t = u @ v \<Longrightarrow> k (v @ r) = None"
  shows "plus_greedy P k (g @ t @ r) = Some (g, a)"
proof -
  let ?s = "g @ t @ r"
  have tw: "takeWhile P ?s = g @ t"
  proof -
    have "takeWhile P ((g @ t) @ r) = (g @ t) @ takeWhile P r"
      using assms(2,3) by (intro takeWhile_append2) auto
    moreover have "takeWhile P r = []" using stop by (cases r) auto
    ultimately show ?thesis by simp
  qed
  have le: "length g \<le> length (g @ t)" by simp
  have none: "k (drop j ?s) = None" if "length g < j" "j \<le> length (g @ t)" for j
  proof -
    let ?u = "take (j - length g) t" and ?v = "drop (j - length g) t"
    have "?u \<noteq> []" using that by auto
    moreover have "t = ?u @ ?v" by simp
    ultimately have "k (?v @ r) = None" by (rule miss)
    moreover have "drop j ?s = ?v @ r" using that by simp
    ultimately show ?thesis by simp
  qed
  have "plus_greedy P k ?s = backoff (length (g @ t)) k ?s"
    by (simp only: plus_greedy_def tw)
  also have "\<dots> = backoff (length g) k ?s"
    using le none by (rule backoff_skip)
  also have "\<dots> = Some (take (length g) ?s, a)"
    using assms(1) hit by (intro backoff_hit) simp_all
  finally show ?thesis by simp
qed

lemma tail_sql_short:
  "length v < 4 \<Longrightarrow> dot (lit ''sql'' (\<lambda>s5. Some ())) v = None"
  by (cases v) (auto simp: dot_def lit_def)

lemma tail_sql_hit: "dot (lit ''sql'' (\<lambda>s5. Some ())) ''.sql'' = Some ()"
  by (simp add: dot_def lit_def newline_def)

lemma not_digit_underscore: "\<not> is_digit CHR ''_''"
  by (simp add: is_digit_def)

lemma description_group:
  assumes "desc \<noteq> []" and "newline \<notin> set desc"
  shows "plus_greedy (\<lambda>c. c \<noteq> newline) (\<lambda>s4. dot (lit ''sql'' (\<lambda>s5. Some ())) s4)
           (desc @ ''.sql'') = Some (desc, ())"
proof -
  have "plus_greedy (\<lambda>c. c \<noteq> newline) (\<lambda>s4. dot (lit ''sql'' (\<lambda>s5. Some ())) s4)
           (desc @ ''.sql'' @ []) = Some (desc, ())"
  proof (rule plus_greedy_longest)
    show "desc \<noteq> []" by (rule assms(1))
    show "\<forall>c\<in>set desc. c \<noteq> newline" using assms(2) by blast
    show "\<forall>c\<in>set ''.sql''. c \<noteq> newline" by (simp add: newline_def)
    show "[] = [] \<or> \<not> hd [] \<noteq> newline" by simp
    show "dot (lit ''sql'' (\<lambda>s5. Some ())) (''.sql'' @ []) = Some ()"
      using tail_sql_hit by simp
    show "dot (lit ''sql'' (\<lambda>s5. Some ())) (v @ []) = None" if "u \<noteq> []" "''.sql'' = u @ v" for u v
    proof -
      have "length u + length v = 4" using arg_cong[OF that(2), of length] by simp
      moreover have "0 < length u" using that(1) by simp
      ultimately have "length v < 4" by linarith
      then show ?thesis by (simp add: tail_sql_short)
    qed
  qed
  then show ?thesis by simp
qed

lemma REVISION_FILE_complete:
  assumes "ds \<noteq> []" and "\<forall>c\<in>set ds. is_digit c" and "desc \<noteq> []" and "newline \<notin> set desc"
  shows "REVISION_FILE (''V'' @ ds @ ''__'' @ desc @ ''.sql'') = Some (''V'', ds, desc)"
proof -
  let ?k2 = "\<lambda>s2. lit ''__'' (\<lambda>s3.
                plus_greedy (\<lambda>c. c \<noteq> newline) (\<lambda>s4.
                  dot (lit ''sql'' (\<lambda>s5. Some ())) s4) s3) s2"
  have hit: "?k2 (''__'' @ desc @ ''.sql'') = Some (desc, ())"
    unfolding lit_append by (rule description_group[OF assms(3,4)])
  have "plus_greedy is_digit ?k2 (ds @ [] @ (''__'' @ desc @ ''.sql'')) = Some (ds, (desc, ()))"
  proof (rule plus_greedy_longest)
    show "ds \<noteq> []" by (rule assms(1))
    show "\<forall>c\<in>set ds. is_digit c" by (rule assms(2))
    show "\<forall>c\<in>set []. is_digit c" by simp
    show "''__'' @ desc @ ''.sql'' = [] \<or> \<not> is_digit (hd (''__'' @ desc @ ''.sql''))"
      using not_digit_underscore by simp
    show "?k2 ([] @ ''__'' @ desc @ ''.sql'') = Some (desc, ())"
      using hit by simp
    show "?k2 (v @ ''__'' @ desc @ ''.sql'') = None" if "u \<noteq> []" "[] = u @ v" for u v
      using that by simp
  qed
  then have g: "plus_greedy is_digit ?k2 (ds @ ''__'' @ desc @ ''.sql'') = Some (ds, (desc, ()))"
    by simp
  show ?thesis
    unfolding REVISION_FILE_def lit_append g by simp
qed

lemma REVISION_FILE_sound:
  assumes "REVISION_FILE name = Some (k, ver, desc)"
  shows "k = ''V'' \<and> ver \<noteq> [] \<and> (\<forall>c\<in>set ver. is_digit c) \<and> desc \<noteq> [] \<and>
         newline \<notin> set desc \<and>
         (\<exists>c rest. c \<noteq> newline \<and> name = ''V'' @ ver @ ''__'' @ desc @ c # ''sql'' @ rest)"
proof -
  let ?k4 = "\<lambda>s4. dot (lit ''sql'' (\<lambda>s5. Some ())) s4"
  let ?k2 = "\<lambda>s2. lit ''__'' (\<lambda>s3. plus_greedy (\<lambda>c. c \<noteq> newline) ?k4 s3) s2"
  let ?k1 = "\<lambda>s1. case plus_greedy is_digit ?k2 s1 of
         None \<Rightarrow> None
       | Some (ver, desc, u) \<Rightarrow> Some (''V'', ver, desc)"
  from assms have "lit ''V'' ?k1 name = Some (k, ver, desc)"
    by (simp add: REVISION_FILE_def)
  then obtain s1 where n: "name = ''V'' @ s1" and k1: "?k1 s1 = Some (k, ver, desc)"
    unfolding lit_Some by blast
  from k1 obtain u where g1: "plus_greedy is_digit ?k2 s1 = Some (ver, desc, u)" and kV: "k = ''V''"
    by (auto split: option.splits)
  from plus_greedy_Some[OF g1] obtain s2 where
    v: "ver \<noteq> []" "\<forall>c\<in>set ver. is_digit c" and s1: "s1 = ver @ s2" and k2: "?k2 s2 = Some (desc, u)"
    by blast
  from k2 obtain s3 where s2: "s2 = ''__'' @ s3"
    and g3: "plus_greedy (\<lambda>c. c \<noteq> newline) ?k4 s3 = Some (desc, u)"
    unfolding lit_Some by blast
  from plus_greedy_Some[OF g3] obtain s4 where
    d: "desc \<noteq> []" "\<forall>c\<in>set desc. c \<noteq> newline" and s3: "s3 = desc @ s4" and k4: "?k4 s4 = Some u"
    by blast
  from k4 obtain c s5 where s4: "s4 = c # s5" and c: "c \<noteq> newline"
    and l: "lit ''sql'' (\<lambda>s5. Some ()) s5 = Some u"
    unfolding dot_Some by blast
  from l obtain rest where s5: "s5 = ''sql'' @ rest"
    unfolding lit_Some by blast
  have "name = ''V'' @ ver @ ''__'' @ desc @ c # ''sql'' @ rest"
    by (simp add: n s1 s2 s3 s4 s5)
  with kV v d c show ?thesis by blast
qed

lemma glob_selected_form:
  assumes "REVISION_FILE name = Some (k, ver, desc)" and "drop (length name - 4) name = ''.sql''"
  shows "\<exists>ds d. ds \<noteq> [] \<and> (\<forall>c\<in>set ds. is_digit c) \<and> d \<noteq> [] \<and>
           name = ''V'' @ ds @ ''__'' @ d @ ''.sql''"
proof -
  from REVISION_FILE_sound[OF assms(1)] obtain c rest where
    v: "ver \<noteq> []" "\<forall>c\<in>set ver. is_digit c" and d: "desc \<noteq> []"
    and n: "name = ''V'' @ ver @ ''__'' @ desc @ c # ''sql'' @ rest"
    by blast
  let ?pre = "''V'' @ ver @ ''__''" and ?X = "desc @ c # ''sql'' @ rest"
  have nx: "name = ?pre @ ?X" by (simp add: n)
  have lx: "4 \<le> length ?X" by simp
  have lx5: "4 < length ?X" using d by (cases desc) simp_all
  have e: "length name - 4 = length ?pre + (length ?X - 4)"
    unfolding nx using lx by simp
  have "drop (length p + i) (p @ x) = drop i x" for p x :: string and i
    by simp
  then have "drop (length ?pre + (length ?X - 4)) (?pre @ ?X) = drop (length ?X - 4) ?X" .
  then have "drop (length name - 4) name = drop (length ?X - 4) ?X"
    unfolding e unfolding nx .
  with assms(2) have t: "drop (length ?X - 4) ?X = ''.sql''" by simp
  let ?d = "take (length ?X - 4) ?X"
  have X: "?X = ?d @ ''.sql''"
    using append_take_drop_id[of "length ?X - 4" ?X] unfolding t by simp
  have "?d \<noteq> []" using lx5 by simp
  moreover have "name = ''V'' @ ver @ ''__'' @ ?d @ ''.sql''"
    using nx X by (metis append.assoc)
  ultimately show ?thesis using v by blast
qed

section \<open>Parsing revision files and scanning the catalog\<close>

lemma py_int_snoc: "py_int (ds @ [c]) = 10 * py_int ds + digit_val c"
  by (simp add: py_int_def)

lemma py_int_value:
  "py_int ds = (\<Sum>i<length ds. digit_val (ds ! i) * 10 ^ (length ds - Suc i))"
proof (induction ds rule: rev_induct)
  case Nil
  then show ?case by (simp add: py_int_def)
next
  case (snoc c ds)
  have "(\<Sum>i<length ds. digit_val ((ds @ [c]) ! i) * 10 ^ (length (ds @ [c]) - Suc i)) =
        (\<Sum>i<length ds. 10 * (digit_val (ds ! i) * 10 ^ (length ds - Suc i)))"
  proof (rule sum.cong)
    fix i assume "i \<in> {..<length ds}"
    then have i: "i < length ds" by simp
    then have "length (ds @ [c]) - Suc i = Suc (length ds - Suc i)" by simp
    with i show "digit_val ((ds @ [c]) ! i) * 10 ^ (length (ds @ [c]) - Suc i) =
                 10 * (digit_val (ds ! i) * 10 ^ (length ds - Suc i))"
      by (simp add: nth_append)
  qed simp
  also have "\<dots> = 10 * py_int ds"
    unfolding snoc.IH by (simp add: sum_distrib_left)
  finally show ?case
    by (simp add: py_int_snoc)
qed

lemma digit_val_digit_char: "d < 10 \<Longrightarrow> digit_val (digit_char d) = int d"
proof -
  assume "d < 10"
  then have "d \<in> {0, 1, 2, 3, 4, 5, 6, 7, 8, 9}" by auto
  then show ?thesis
    by (auto simp: digit_val_def digit_char_def)
qed

lemma py_int_str_nat: "py_int (str_nat n) = int n"
proof (induction n rule: str_nat.induct)
  case (1 n)
  show ?case
  proof (cases "n < 10")
    case True
    then show ?thesis
      by (simp add: str_nat.simps[of n] py_int_def digit_val_digit_char)
  next
    case False
    then have "py_int (str_nat n) = 10 * py_int (str_nat (n div 10)) + digit_val (digit_char (n mod 10))"
      by (simp add: str_nat.simps[of n] py_int_snoc)
    also have "\<dots> = 10 * int (n div 10) + int (n mod 10)"
      using 1[OF False] by (simp add: digit_val_digit_char)
    also have "\<dots> = int n" by (simp add: zdiv_int zmod_int)
    finally show ?thesis .
  qed
qed

lemma get_revisions_skip:
  assumes "drop (length name - 4) name = ''.sql'' \<Longrightarrow> REVISION_FILE name = None"
  shows "get_revisions rt (xs @ name # ys) = get_revisions rt (xs @ ys)"
proof (cases "drop (length name - 4) name = ''.sql''")
  case True
  with assms have "REVISION_FILE name = None" by simp
  with True show ?thesis
    by (simp add: get_revisions_def glob_sql_def)
next
  case False
  then show ?thesis
    by (simp add: get_revisions_def glob_sql_def)
qed

lemma get_revisions_snoc:
  assumes "drop (length name - 4) name = ''.sql''" and "REVISION_FILE name = Some m"
  shows "get_revisions rt (names @ [name]) =
     AList.update (Revision.version (from_match m (path_join (path_join rt ''migrations'') name)))
       (from_match m (path_join (path_join rt ''migrations'') name)) (get_revisions rt names)"
  using assms by (simp add: get_revisions_def glob_sql_def Let_def)

text \<open>
  C8, as the code has it. The kind is the letter \<open>V\<close> and no other. For every name made of
  \<open>V\<close>, one or more digits, two underscores, a description that is not empty and holds no
  line break, and \<open>.sql\<close>, the pattern matches; the scan enters into the catalog, under
  the decimal value of the digits, a revision with that version and with the description as
  it stands in the name. A name that is not \<open>V\<close>, digits, two underscores, a non-empty
  description and \<open>.sql\<close> is skipped by the scan: the catalog is the one without it.
\<close>

theorem revision_file_pattern:
  "(ds \<noteq> [] \<and> (\<forall>c\<in>set ds. is_digit c) \<and> desc \<noteq> [] \<and> newline \<notin> set desc \<longrightarrow>
      REVISION_FILE (''V'' @ ds @ ''__'' @ desc @ ''.sql'') = Some (''V'', ds, desc) \<and>
      py_int ds = (\<Sum>i<length ds. digit_val (ds ! i) * 10 ^ (length ds - Suc i)) \<and>
      get_revisions rt (names @ [''V'' @ ds @ ''__'' @ desc @ ''.sql'']) =
        AList.update (py_int ds)
          \<lparr>kind = ''V'', version = py_int ds, description = desc,
           file = rt @ ''/migrations/'' @ ''V'' @ ds @ ''__'' @ desc @ ''.sql''\<rparr>
          (get_revisions rt names)) \<and>
   (\<not> (\<exists>ds' desc'. ds' \<noteq> [] \<and> (\<forall>c\<in>set ds'. is_digit c) \<and> desc' \<noteq> [] \<and>
           name = ''V'' @ ds' @ ''__'' @ desc' @ ''.sql'') \<longrightarrow>
      get_revisions rt (xs @ name # ys) = get_revisions rt (xs @ ys))"
proof (intro conjI impI)
  assume a: "ds \<noteq> [] \<and> (\<forall>c\<in>set ds. is_digit c) \<and> desc \<noteq> [] \<and> newline \<notin> set desc"
  let ?n = "''V'' @ ds @ ''__'' @ desc @ ''.sql''"
  from a show m: "REVISION_FILE ?n = Some (''V'', ds, desc)"
    by (intro REVISION_FILE_complete) simp_all
  show "py_int ds = (\<Sum>i<length ds. digit_val (ds ! i) * 10 ^ (length ds - Suc i))"
    by (rule py_int_value)
  have g: "drop (length ?n - 4) ?n = ''.sql''" by simp
  show "get_revisions rt (names @ [?n]) =
        AList.update (py_int ds)
          \<lparr>kind = ''V'', version = py_int ds, description = desc,
           file = rt @ ''/migrations/'' @ ''V'' @ ds @ ''__'' @ desc @ ''.sql''\<rparr>
          (get_revisions rt names)"
    unfolding get_revisions_snoc[OF g m] by (simp add: from_match_def path_join_def)
next
  assume n: "\<not> (\<exists>ds' desc'. ds' \<noteq> [] \<and> (\<forall>c\<in>set ds'. is_digit c) \<and> desc' \<noteq> [] \<and>
           name = ''V'' @ ds' @ ''__'' @ desc' @ ''.sql'')"
  show "get_revisions rt (xs @ name # ys) = get_revisions rt (xs @ ys)"
  proof (rule get_revisions_skip)
    assume g: "drop (length name - 4) name = ''.sql''"
    show "REVISION_FILE name = None"
    proof (cases "REVISION_FILE name")
      case None
      then show ?thesis .
    next
      case (Some m)
      obtain k ver d where "m = (k, ver, d)" by (cases m)
      with Some glob_selected_form[OF _ g] n show ?thesis by blast
    qed
  qed
qed

theorem revision_file_pattern_witness:
  "REVISION_FILE ''V012__add_users_table.sql'' = Some (''V'', ''012'', ''add_users_table'') \<and>
   py_int ''012'' = 12 \<and>
   get_revisions ''app'' [''V012__add_users_table.sql''] =
     [(12, \<lparr>kind = ''V'', version = 12, description = ''add_users_table'',
            file = ''app/migrations/V012__add_users_table.sql''\<rparr>)] \<and>
   get_revisions ''app'' [''V012__add_users_table.sql'', ''notes.sql''] =
     get_revisions ''app'' [''V012__add_users_table.sql'']"
proof -
  have h1: "''012'' \<noteq> [] \<and> (\<forall>c\<in>set ''012''. is_digit c) \<and> ''add_users_table'' \<noteq> [] \<and>
            newline \<notin> set ''add_users_table''"
    by (simp add: is_digit_def newline_def)
  have h2: "\<not> (\<exists>ds' desc'. ds' \<noteq> [] \<and> (\<forall>c\<in>set ds'. is_digit c) \<and> desc' \<noteq> [] \<and>
           ''notes.sql'' = ''V'' @ ds' @ ''__'' @ desc' @ ''.sql'')"
    by simp
  have v: "py_int ''012'' = 12" by (simp add: py_int_def digit_val_def)
  have e: "get_revisions ''app'' [] = []" by (simp add: get_revisions_def glob_sql_def)
  note T = revision_file_pattern[of "''012''" "''add_users_table''" "''app''" "[]" "''notes.sql''"
      "[''V012__add_users_table.sql'']" "[]"]
  from T h1 have a: "REVISION_FILE (''V'' @ ''012'' @ ''__'' @ ''add_users_table'' @ ''.sql'') =
      Some (''V'', ''012'', ''add_users_table'')"
    and b: "get_revisions ''app'' ([] @ [''V'' @ ''012'' @ ''__'' @ ''add_users_table'' @ ''.sql'']) =
        AList.update (py_int ''012'')
          \<lparr>kind = ''V'', version = py_int ''012'', description = ''add_users_table'',
           file = ''app'' @ ''/migrations/'' @ ''V'' @ ''012'' @ ''__'' @ ''add_users_table'' @ ''.sql''\<rparr>
          (get_revisions ''app'' [])"
    by blast+
  from T h2 have c: "get_revisions ''app'' ([''V012__add_users_table.sql''] @ ''notes.sql'' # []) =
      get_revisions ''app'' ([''V012__add_users_table.sql''] @ [])"
    by blast
  from a b c show ?thesis
    by (simp add: v e)
qed

text \<open>
  C8 as the claim states it fails for a kind other than \<open>V\<close>: the name
  \<open>A1__init.sql\<close> has an uppercase letter, digits, two underscores, a description and the
  extension, and the pattern does not match it; the scan leaves the catalog empty.
\<close>

theorem revision_file_kind_counterexample:
  "REVISION_FILE ''A1__init.sql'' = None \<and> get_revisions ''app'' [''A1__init.sql''] = []"
proof (intro conjI)
  show "REVISION_FILE ''A1__init.sql'' = None"
    by code_simp
  show "get_revisions ''app'' [''A1__init.sql''] = []"
    by code_simp
qed

end
